theory Spec2Isabelle
  imports Main "HOL-Library.Word"
begin

unbundle bit_operations_syntax

section \<open>Data model\<close>

text \<open>
  Package i64 (\<^verbatim>\<open>bits.go\<close>): a bit field held in one 64-bit word.

  Go's \<^verbatim>\<open>uint64\<close> is a 64-bit word. Go's \<^verbatim>\<open>int\<close> is taken at its width on the
  64-bit platforms (amd64, arm64): a 64-bit word read in two's complement. Comparisons
  of \<^verbatim>\<open>int\<close> values are the signed ones (\<open>\<le>s\<close>, \<open><s\<close>), \<open>sint\<close> reads the value,
  \<^verbatim>\<open>int\<close> arithmetic wraps around, and the conversion \<^verbatim>\<open>uint64(n)\<close> keeps the bits
  (so a negative \<^verbatim>\<open>n\<close> becomes a value of at least \<open>2 ^ 63\<close>).
\<close>

type_synonym uint64 = "64 word"
type_synonym goint = "64 word"

text \<open>\<^verbatim>\<open>type Bits uint64\<close> and \<^verbatim>\<open>type Iter uint64\<close>.\<close>

type_synonym Bits = uint64
type_synonym Iter = uint64

section \<open>The standard library functions the package calls\<close>

text \<open>
  \<^verbatim>\<open>math/bits\<close>, by its documentation: \<^verbatim>\<open>TrailingZeros64\<close> is the number of trailing
  zero bits and \<^verbatim>\<open>LeadingZeros64\<close> the number of leading zero bits (both 64 for the word
  0); \<^verbatim>\<open>OnesCount64\<close> is the number of one bits. Each returns an \<^verbatim>\<open>int\<close>.
\<close>

definition TrailingZeros64 :: "uint64 \<Rightarrow> goint" where
  "TrailingZeros64 x = of_nat (length (takeWhile (\<lambda>i. \<not> bit x i) [0..<64]))"

definition LeadingZeros64 :: "uint64 \<Rightarrow> goint" where
  "LeadingZeros64 x = of_nat (length (takeWhile (\<lambda>i. \<not> bit x i) (rev [0..<64])))"

definition OnesCount64 :: "uint64 \<Rightarrow> goint" where
  "OnesCount64 x = of_nat (length (filter (bit x) [0..<64]))"

text \<open>
  \<^verbatim>\<open>strconv.Itoa\<close>: the decimal representation of an \<^verbatim>\<open>int\<close>, with a minus sign for a
  negative one.
\<close>

definition digit :: "nat \<Rightarrow> char" where
  "digit d = char_of (48 + d)"

fun decimal :: "nat \<Rightarrow> string" where
  "decimal n = (if n < 10 then [digit n] else decimal (n div 10) @ [digit (n mod 10)])"

declare decimal.simps [simp del]

definition Itoa :: "goint \<Rightarrow> string" where
  "Itoa i = (if i <s 0 then CHR ''-'' # decimal (nat (- sint i)) else decimal (nat (sint i)))"

section \<open>The bit field\<close>

text \<open>
  In \<^verbatim>\<open>1 << uint64(n)\<close> the constant takes the type \<^verbatim>\<open>Bits\<close>; a Go shift has no upper
  limit on its count and shifts every bit out when the count reaches the width, as
  \<open>push_bit\<close> on a word does.
\<close>

definition Set :: "Bits \<Rightarrow> goint \<Rightarrow> Bits" where
  "Set b n = b OR push_bit (unat n) 1"

definition Unset :: "Bits \<Rightarrow> goint \<Rightarrow> Bits" where
  "Unset b n = b AND NOT (push_bit (unat n) 1)"

definition Test :: "Bits \<Rightarrow> goint \<Rightarrow> bool" where
  "Test b n \<longleftrightarrow> b AND push_bit (unat n) 1 \<noteq> 0"

definition Empty :: "Bits \<Rightarrow> bool" where
  "Empty b \<longleftrightarrow> b = 0"

definition Count :: "Bits \<Rightarrow> goint" where
  "Count b = OnesCount64 b"

definition Singular :: "Bits \<Rightarrow> bool" where
  "Singular b \<longleftrightarrow> b \<noteq> 0 \<and> b AND (b - 1) = 0"

text \<open>\<^verbatim>\<open>Least\<close> is \<open>Least_Bits\<close> here, since HOL has a constant \<open>Least\<close>.\<close>

definition Least_Bits :: "Bits \<Rightarrow> goint" where
  "Least_Bits b = (if b = 0 then - 1 else TrailingZeros64 b)"

definition Most :: "Bits \<Rightarrow> goint" where
  "Most b = (if b = 0 then - 1 else 63 - LeadingZeros64 b)"

text \<open>\<^verbatim>\<open>Of\<close>: the loop over the arguments, starting from the zero field.\<close>

fun Of_loop :: "goint list \<Rightarrow> Bits \<Rightarrow> Bits" where
  "Of_loop [] b = b"
| "Of_loop (n # ns) b = Of_loop ns (if 0 \<le>s n \<and> n <s 64 then Set b n else b)"

definition Of :: "goint list \<Rightarrow> Bits" where
  "Of bits = Of_loop bits 0"

text \<open>
  \<^verbatim>\<open>Range\<close> (here \<open>Range_Bits\<close>, since HOL has a constant \<open>Range\<close>): the loop
  \<^verbatim>\<open>for n := low; n <= high; n += step\<close>. With \<^verbatim>\<open>step = 0\<close> and
  \<^verbatim>\<open>low <= high\<close> it never ends, so the loop is a partial function: not returning is
  \<open>None\<close>.
\<close>

partial_function (option) Range_loop :: "goint \<Rightarrow> goint \<Rightarrow> goint \<Rightarrow> Bits \<Rightarrow> Bits option" where
  "Range_loop n high step b =
     (if n \<le>s high then Range_loop (n + step) high step (Set b n) else Some b)"

definition Range_Bits :: "goint \<Rightarrow> goint \<Rightarrow> goint \<Rightarrow> Bits option" where
  "Range_Bits low high step =
     (let low = (if low <s 0 then 0 else low);
          high = (if 63 <s high then 63 else high)
      in Range_loop low high step 0)"

section \<open>The iterator\<close>

definition Iter :: "Bits \<Rightarrow> Iter" where
  "Iter b = b"

text \<open>
  \<^verbatim>\<open>Next\<close> has a pointer receiver: it returns its result together with the new value of
  the iterator.
\<close>

definition Next :: "Iter \<Rightarrow> goint \<times> Iter" where
  "Next it =
     (let b = it
      in if b = 0 then (- 1, it)
         else (let n = TrailingZeros64 b in (n, b AND (b - 1))))"

section \<open>Bits of the operations\<close>

lemma sint_goint:
  fixes w :: goint
  shows "sint w = (if uint w < 2 ^ 63 then uint w else uint w - 2 ^ 64)"
proof -
  have "sint (word_of_int (uint w) :: goint) = (uint w + 2 ^ 63) mod 2 ^ 64 - 2 ^ 63"
    by (simp only: int_word_sint) simp
  then have s: "sint w = (uint w + 2 ^ 63) mod 2 ^ 64 - 2 ^ 63"
    by simp
  have b: "0 \<le> uint w" "uint w < 2 ^ 64"
    using uint_lt2p [of w] by simp_all
  show ?thesis
  proof (cases "uint w < 2 ^ 63")
    case True
    with b have "(uint w + 2 ^ 63) mod 2 ^ 64 = uint w + 2 ^ 63"
      by (intro mod_pos_pos_trivial) simp_all
    with s True show ?thesis by simp
  next
    case False
    have "(uint w + 2 ^ 63) mod 2 ^ 64 = (uint w + 2 ^ 63 - 2 ^ 64) mod 2 ^ 64"
      by (simp only: minus_mod_self2)
    also from b False have "\<dots> = uint w + 2 ^ 63 - 2 ^ 64"
      by (intro mod_pos_pos_trivial) simp_all
    finally show ?thesis
      using s False by simp
  qed
qed

lemma uint_of_sint:
  fixes n :: goint
  assumes "0 \<le> sint n"
  shows "uint n = sint n"
proof (cases "uint n < 2 ^ 63")
  case True
  with sint_goint [of n] show ?thesis by simp
next
  case False
  with sint_goint [of n] have "sint n = uint n - 2 ^ 64" by simp
  moreover have "uint n < 2 ^ 64"
    using uint_lt2p [of n] by simp
  ultimately show ?thesis
    using assms by linarith
qed

lemma unat_of_index:
  fixes n :: goint
  assumes "0 \<le>s n" and "n \<le>s 63"
  shows "unat n < 64"
proof -
  have s: "0 \<le> sint n" "sint n \<le> 63"
    using assms by (simp_all add: word_sle_eq)
  with uint_of_sint [of n] have "uint n < 64" by linarith
  then show ?thesis
    by (simp add: unat_eq_nat_uint del: nat_uint_eq)
qed

lemma unat_outside:
  fixes n :: goint
  assumes "n <s 0 \<or> 63 <s n"
  shows "64 \<le> unat n"
proof -
  have s: "sint n < 0 \<or> 63 < sint n"
    using assms by (simp add: word_sless_alt)
  have "uint n < 2 ^ 64" "0 \<le> uint n"
    using uint_lt2p [of n] by simp_all
  with s sint_goint [of n] have "64 \<le> uint n"
    by (cases "uint n < 2 ^ 63") simp_all
  then show ?thesis
    by (simp add: unat_eq_nat_uint del: nat_uint_eq)
qed

lemma sint_add_goint:
  fixes a b :: goint
  assumes "- (2 ^ 63) \<le> sint a + sint b" "sint a + sint b < 2 ^ 63"
  shows "sint (a + b) = sint a + sint b"
  using assms by (simp add: sint_word_ariths signed_take_bit_int_eq_self)

lemma Test_bit: "Test b n \<longleftrightarrow> bit b (unat n)"
  by (simp add: Test_def bit_iff_and_push_bit_not_eq_0)

lemma bit_Set: "bit (Set b n) k \<longleftrightarrow> bit b k \<or> (k = unat n \<and> k < 64)"
  by (auto simp add: Set_def bit_or_iff bit_push_bit_iff bit_1_iff bit_exp_iff)

lemma bit_Unset: "bit (Unset b n) k \<longleftrightarrow> bit b k \<and> k \<noteq> unat n"
  by (auto simp add: Unset_def bit_and_iff bit_not_iff bit_push_bit_iff bit_1_iff bit_exp_iff dest: bit_imp_le_length)

lemma unat_index_inject:
  fixes m n :: goint
  shows "unat m = unat n \<longleftrightarrow> m = n"
  by (simp add: word_unat_eq_iff)

lemma unat_sint_index:
  fixes n :: goint
  assumes "0 \<le> sint n"
  shows "int (unat n) = sint n"
  using assms uint_of_sint [OF assms] by (simp add: unat_eq_nat_uint del: nat_uint_eq)

section \<open>Lowest and highest set bit\<close>

lemma nonzero_has_bit:
  fixes b :: uint64
  assumes "b \<noteq> 0"
  shows "\<exists>i<64. bit b i"
proof (rule ccontr)
  assume "\<not> (\<exists>i<64. bit b i)"
  then have "b = 0"
    by (intro bit_word_eqI) simp
  with assms show False by simp
qed

lemma length_takeWhile_upt:
  assumes "i < n" and "\<not> P i" and "\<forall>j<i. P j"
  shows "length (takeWhile P [0..<n]) = i"
proof -
  from assms(1) have "[0..<n] = [0..<i] @ i # [Suc i..<n]"
    by (metis le_add_diff_inverse less_imp_le_nat upt_add_eq_append upt_conv_Cons zero_le)
  moreover have "takeWhile P ([0..<i] @ i # [Suc i..<n]) = [0..<i] @ takeWhile P (i # [Suc i..<n])"
    by (rule takeWhile_append2) (use assms(3) in simp)
  ultimately show ?thesis
    using assms(2) by simp
qed

lemma length_takeWhile_rev_upt:
  assumes "i < n" and "\<not> P i" and "\<forall>j. i < j \<and> j < n \<longrightarrow> P j"
  shows "length (takeWhile P (rev [0..<n])) = n - Suc i"
proof -
  from assms(1) have "[0..<n] = [0..<i] @ i # [Suc i..<n]"
    by (metis le_add_diff_inverse less_imp_le_nat upt_add_eq_append upt_conv_Cons zero_le)
  then have "rev [0..<n] = rev [Suc i..<n] @ i # rev [0..<i]"
    by simp
  moreover have "takeWhile P (rev [Suc i..<n] @ i # rev [0..<i]) =
      rev [Suc i..<n] @ takeWhile P (i # rev [0..<i])"
    by (rule takeWhile_append2) (use assms(3) in simp)
  ultimately show ?thesis
    using assms(2) by simp
qed

text \<open>
  The positions of the lowest and of the highest set bit of a word other than 0, for
  the proofs only: what \<^verbatim>\<open>TrailingZeros64\<close> and \<^verbatim>\<open>LeadingZeros64\<close> find.
\<close>

definition lowest :: "uint64 \<Rightarrow> nat" where
  "lowest b = (LEAST i. bit b i)"

definition highest :: "uint64 \<Rightarrow> nat" where
  "highest b = (GREATEST i. bit b i)"

lemma lowest_props:
  fixes b :: uint64
  assumes "b \<noteq> 0"
  shows "lowest b < 64" and "bit b (lowest b)" and "\<And>j. j < lowest b \<Longrightarrow> \<not> bit b j"
proof -
  from nonzero_has_bit [OF assms] obtain i where i: "i < 64" "bit b i"
    by blast
  then show "bit b (lowest b)"
    unfolding lowest_def by (metis LeastI)
  from i have "lowest b \<le> i"
    unfolding lowest_def by (simp add: Least_le)
  with i show "lowest b < 64"
    by simp
  show "\<And>j. j < lowest b \<Longrightarrow> \<not> bit b j"
    unfolding lowest_def by (rule not_less_Least)
qed

lemma highest_props:
  fixes b :: uint64
  assumes "b \<noteq> 0"
  shows "highest b < 64" and "bit b (highest b)" and "\<And>j. highest b < j \<Longrightarrow> \<not> bit b j"
proof -
  from nonzero_has_bit [OF assms] obtain i where i: "i < 64" "bit b i"
    by blast
  have bound: "\<forall>j. bit b j \<longrightarrow> j \<le> 63"
    by (auto dest: bit_imp_le_length)
  from i bound show h: "bit b (highest b)"
    unfolding highest_def by (metis GreatestI_nat)
  then show "highest b < 64"
    by (auto dest: bit_imp_le_length)
  fix j
  assume "highest b < j"
  with bound show "\<not> bit b j"
    unfolding highest_def by (metis Greatest_le_nat not_less)
qed

lemma unat_small:
  "n \<le> 64 \<Longrightarrow> unat (of_nat n :: goint) = n"
  by (simp add: unat_of_nat)

lemma TrailingZeros64_lowest:
  "b \<noteq> 0 \<Longrightarrow> TrailingZeros64 b = of_nat (lowest b)"
  unfolding TrailingZeros64_def
  using lowest_props [of b] by (simp add: length_takeWhile_upt [of "lowest b"])

lemma LeadingZeros64_highest:
  "b \<noteq> 0 \<Longrightarrow> LeadingZeros64 b = of_nat (63 - highest b)"
  unfolding LeadingZeros64_def
  using highest_props [of b] by (simp add: length_takeWhile_rev_upt [of "highest b"])

lemma bit_uint64_less:
  fixes b :: uint64
  shows "bit b k \<Longrightarrow> k < 64"
  by (auto dest: bit_imp_le_length)

lemma decr_bits:
  fixes b :: uint64
  assumes "b \<noteq> 0"
  shows "b - 1 = (b AND NOT (push_bit (lowest b) 1)) OR mask (lowest b)"
proof -
  let ?p = "lowest b"
  note lp = lowest_props [OF assms]
  have "b - push_bit ?p 1 = b AND NOT (push_bit ?p 1)"
    by (rule disjunctive_diff) (use lp in \<open>auto simp add: bit_push_bit_iff bit_1_iff bit_exp_iff\<close>)
  moreover have "(b AND NOT (push_bit ?p 1)) + mask ?p = (b AND NOT (push_bit ?p 1)) OR mask ?p"
    by (rule disjunctive_add) (use lp in \<open>auto simp add: bit_and_iff bit_mask_iff\<close>)
  moreover have "b - 1 = (b - push_bit ?p 1) + mask ?p"
    by (simp add: mask_eq_exp_minus_1 push_bit_eq_mult)
  ultimately show ?thesis
    by simp
qed

lemma bit_clear_lowest:
  fixes b :: uint64
  assumes "b \<noteq> 0"
  shows "bit (b AND (b - 1)) k \<longleftrightarrow> bit b k \<and> k \<noteq> lowest b"
proof -
  note lp = lowest_props [OF assms]
  show ?thesis
    unfolding decr_bits [OF assms]
    using lp by (auto simp add: bit_and_iff bit_or_iff bit_not_iff bit_mask_iff bit_push_bit_iff bit_1_iff bit_exp_iff
        dest: bit_uint64_less)
qed

lemma sint_small:
  assumes "k \<le> 64"
  shows "sint (of_nat k :: goint) = int k"
proof -
  have u: "uint (of_nat k :: goint) = int k"
    using assms by (simp add: uint_nat unat_small)
  with assms have "uint (of_nat k :: goint) < 2 ^ 63"
    by simp
  with sint_goint [of "of_nat k"] u show ?thesis
    by simp
qed

lemma index_of_nat:
  assumes "k < 64"
  shows "0 \<le>s (of_nat k :: goint)" and "(of_nat k :: goint) \<le>s 63" and "unat (of_nat k :: goint) = k"
  using assms by (simp_all add: word_sle_eq sint_small unat_small)

lemma index_cases:
  fixes n :: goint
  assumes "0 \<le>s n" and "n \<le>s 63"
  obtains k where "k < 64" and "n = of_nat k"
proof
  show "unat n < 64"
    using assms by (rule unat_of_index)
  show "n = of_nat (unat n)"
    by simp
qed

lemma filter_bits_step:
  fixes b :: uint64
  assumes "b \<noteq> 0"
  shows "filter (bit b) [0..<64] = lowest b # filter (bit (b AND (b - 1))) [0..<64]"
proof -
  let ?p = "lowest b" and ?b' = "b AND (b - 1)"
  note lp = lowest_props [OF assms]
  note cl = bit_clear_lowest [OF assms]
  from lp(1) have split: "[0..<64] = [0..<?p] @ ?p # [Suc ?p..<64]"
    by (metis le_add_diff_inverse less_imp_le_nat upt_add_eq_append upt_conv_Cons zero_le)
  have low: "filter (bit b) [0..<?p] = []" "filter (bit ?b') [0..<?p] = []"
    using lp(3) by (simp_all add: filter_empty_conv cl)
  have high: "filter (bit ?b') [Suc ?p..<64] = filter (bit b) [Suc ?p..<64]"
    by (rule filter_cong) (simp_all add: cl)
  have "filter (bit b) [0..<64] = filter (bit b) ([0..<?p] @ ?p # [Suc ?p..<64])"
    using split by simp
  also have "\<dots> = ?p # filter (bit b) [Suc ?p..<64]"
    using low(1) lp(2) by simp
  finally have 1: "filter (bit b) [0..<64] = ?p # filter (bit b) [Suc ?p..<64]" .
  have "filter (bit ?b') [0..<64] = filter (bit ?b') ([0..<?p] @ ?p # [Suc ?p..<64])"
    using split by simp
  also have "\<dots> = filter (bit b) [Suc ?p..<64]"
    using low(2) high by (simp add: cl)
  finally show ?thesis
    using 1 by simp
qed

lemma filter_bits_empty:
  fixes b :: uint64
  shows "filter (bit b) [0..<64] = [] \<longleftrightarrow> b = 0"
proof
  assume "filter (bit b) [0..<64] = []"
  then have "\<forall>i<64. \<not> bit b i"
    by (simp add: filter_empty_conv)
  with nonzero_has_bit [of b] show "b = 0"
    by blast
qed simp

lemma Next_zero: "Next 0 = (- 1, 0)"
  by (simp add: Next_def)

lemma Next_nonzero:
  "it \<noteq> 0 \<Longrightarrow> Next it = (of_nat (lowest it), it AND (it - 1))"
  by (simp add: Next_def TrailingZeros64_lowest)

lemma minus_one_negative: "\<not> 0 \<le>s (- 1 :: goint)"
  by (simp add: word_sle_eq)

lemma Next_nonneg:
  "0 \<le>s fst (Next it) \<longleftrightarrow> it \<noteq> 0"
  using lowest_props(1) [of it]
  by (cases "it = 0") (simp_all add: Next_zero Next_nonzero minus_one_negative index_of_nat)

lemma clear_lowest_less:
  fixes b :: uint64
  assumes "b \<noteq> 0"
  shows "b AND (b - 1) < b"
proof -
  have "b AND (b - 1) \<le> b"
    by (rule word_and_le2)
  moreover have "b AND (b - 1) \<noteq> b"
  proof
    assume "b AND (b - 1) = b"
    then have "bit (b AND (b - 1)) (lowest b) = bit b (lowest b)"
      by simp
    with lowest_props(2) [OF assms] bit_clear_lowest [OF assms, of "lowest b"] show False
      by simp
  qed
  ultimately show ?thesis
    by simp
qed

lemma Next_decreases:
  assumes "Next it = (x, it')" and "0 \<le>s x"
  shows "unat it' < unat it"
proof -
  from assms Next_nonneg [of it] have nz: "it \<noteq> 0"
    by simp
  with assms(1) have "it' = it AND (it - 1)"
    by (simp add: Next_nonzero)
  with clear_lowest_less [OF nz] show ?thesis
    by (simp add: word_less_nat_alt)
qed

section \<open>Full iteration\<close>

text \<open>
  The loop \<^verbatim>\<open>for x := it.Next(); x >= 0; x = it.Next()\<close> of the documentation of
  \<^verbatim>\<open>Iter\<close>, of \<^verbatim>\<open>String\<close> and of the tests, collecting the values of \<^verbatim>\<open>x\<close> as
  \<^verbatim>\<open>checkiter\<close> does. It ends because every successful \<^verbatim>\<open>Next\<close> lowers the iterator's
  word.
\<close>

function iterate :: "Iter \<Rightarrow> goint list" where
  "iterate it = (case Next it of (x, it') \<Rightarrow> if 0 \<le>s x then x # iterate it' else [])"
  by pat_completeness auto
termination
  by (relation "measure unat") (auto intro: Next_decreases [OF sym])

declare iterate.simps [simp del]

lemma iterate_zero: "iterate 0 = []"
  by (subst iterate.simps) (simp add: Next_zero minus_one_negative)

lemma iterate_nonzero:
  "it \<noteq> 0 \<Longrightarrow> iterate it = of_nat (lowest it) # iterate (it AND (it - 1))"
  using lowest_props(1) [of it]
  by (subst iterate.simps) (simp add: Next_nonzero index_of_nat)

lemma iterate_bits:
  "iterate it = map of_nat (filter (bit it) [0..<64])"
proof (induction it rule: measure_induct_rule [where f = unat])
  case (less it)
  show ?case
  proof (cases "it = 0")
    case True
    then show ?thesis
      by (simp add: iterate_zero)
  next
    case False
    from clear_lowest_less [OF False] have "unat (it AND (it - 1)) < unat it"
      by (simp add: word_less_nat_alt)
    then have "iterate (it AND (it - 1)) = map of_nat (filter (bit (it AND (it - 1))) [0..<64])"
      by (rule less.IH)
    then show ?thesis
      by (simp add: iterate_nonzero [OF False] filter_bits_step [OF False])
  qed
qed

section \<open>String\<close>

text \<open>
  \<^verbatim>\<open>String\<close>: the loop over the iterator, with the builder \<^verbatim>\<open>sb\<close> and the separator
  \<^verbatim>\<open>sep\<close>, which is empty before the first position and one space from then on.
\<close>

function String_loop :: "Iter \<Rightarrow> string \<Rightarrow> string \<Rightarrow> string" where
  "String_loop it sb sep =
     (case Next it of (x, it') \<Rightarrow>
        if 0 \<le>s x then String_loop it' (sb @ sep @ Itoa x) '' '' else sb)"
  by pat_completeness auto
termination
  by (relation "measure (\<lambda>(it, sb, sep). unat it)") (auto intro: Next_decreases [OF sym])

declare String_loop.simps [simp del]

definition String :: "Bits \<Rightarrow> string" where
  "String b = String_loop (Iter b) [] []"

section \<open>Reference functions for the claims\<close>

text \<open>
  These are not code of the package; the claims are stated with them.

  \<open>spec_clamp\<close> is the two-sided clamp to [0, 63] in the words of the claim about
  \<^verbatim>\<open>Range\<close>. \<open>join_spaces\<close> puts one space between neighbouring strings
  (\<^verbatim>\<open>strings.Join(ss, " ")\<close>). \<open>split_on\<close> cuts a string at every occurrence of a
  character, as \<^verbatim>\<open>strings.Split\<close> does for a separator of one character (the empty string
  gives one empty piece), and \<open>fields\<close> keeps the pieces that are not empty, as
  \<^verbatim>\<open>strings.Fields\<close> does on a string whose only white space is the space. \<open>Atoi\<close> reads
  a non-empty string of decimal digits.
\<close>

definition spec_clamp :: "int \<Rightarrow> int" where
  "spec_clamp x = (if x < 0 then 0 else if 63 < x then 63 else x)"

fun join_spaces :: "string list \<Rightarrow> string" where
  "join_spaces [] = []"
| "join_spaces [s] = s"
| "join_spaces (s # t # ts) = s @ CHR '' '' # join_spaces (t # ts)"

fun split_on :: "char \<Rightarrow> string \<Rightarrow> string list" where
  "split_on c [] = [[]]"
| "split_on c (x # xs) =
     (if x = c then [] # split_on c xs
      else (x # hd (split_on c xs)) # tl (split_on c xs))"

definition fields :: "string \<Rightarrow> string list" where
  "fields s = filter (\<lambda>t. t \<noteq> []) (split_on CHR '' '' s)"

definition is_digit :: "char \<Rightarrow> bool" where
  "is_digit c \<longleftrightarrow> 48 \<le> (of_char c :: nat) \<and> (of_char c :: nat) \<le> 57"

definition Atoi :: "string \<Rightarrow> goint option" where
  "Atoi s =
     (if s \<noteq> [] \<and> list_all is_digit s
      then Some (of_nat (foldl (\<lambda>a c. 10 * a + (of_char c - 48)) 0 s))
      else None)"

section \<open>Positions as values of type int\<close>

lemma of_nat_index_less:
  "k < 64 \<Longrightarrow> j < 64 \<Longrightarrow> (of_nat k :: goint) <s of_nat j \<longleftrightarrow> k < j"
  by (simp add: word_sless_alt sint_small)

lemma of_nat_index_le:
  "k < 64 \<Longrightarrow> j < 64 \<Longrightarrow> (of_nat k :: goint) \<le>s of_nat j \<longleftrightarrow> k \<le> j"
  by (simp add: word_sle_eq sint_small)

lemma of_nat_index_not_minus_one:
  assumes "k < 64"
  shows "(of_nat k :: goint) \<noteq> - 1"
proof
  assume "(of_nat k :: goint) = - 1"
  then have "sint (of_nat k :: goint) = sint (- 1 :: goint)"
    by simp
  with assms show False
    by (simp add: sint_small)
qed

lemma Least_Bits_nonzero: "b \<noteq> 0 \<Longrightarrow> Least_Bits b = of_nat (lowest b)"
  by (simp add: Least_Bits_def TrailingZeros64_lowest)

lemma Most_nonzero:
  assumes "b \<noteq> 0"
  shows "Most b = of_nat (highest b)"
proof -
  from highest_props(1) [OF assms] have "highest b \<le> 63"
    by simp
  then have "(of_nat (63 - highest b) :: goint) = of_nat 63 - of_nat (highest b)"
    by (rule of_nat_diff)
  with assms show ?thesis
    by (simp add: Most_def LeadingZeros64_highest)
qed

lemma clear_lowest_Unset:
  assumes "b \<noteq> 0"
  shows "b AND (b - 1) = Unset b (of_nat (lowest b))"
  using lowest_props(1) [OF assms]
  by (intro bit_word_eqI) (simp add: bit_clear_lowest [OF assms] bit_Unset index_of_nat)

lemma length_filter_bits_le: "length (filter (bit (b::uint64)) [0..<64]) \<le> 64"
  using length_filter_le [of "bit b" "[0..<64]"] by simp

lemma unat_Count: "unat (Count b) = length (filter (bit b) [0..<64])"
  by (simp add: Count_def OnesCount64_def unat_small length_filter_bits_le)

lemma unat_Count_iterate: "unat (Count b) = length (iterate b)"
  by (simp add: unat_Count iterate_bits)

lemma funpow_Next_zero: "((snd \<circ> Next) ^^ k) 0 = 0"
  by (induction k) (simp_all add: Next_zero)

lemma funpow_Next_iterate:
  "((snd \<circ> Next) ^^ length (iterate it)) it = 0 \<and>
   (\<forall>k<length (iterate it). ((snd \<circ> Next) ^^ k) it \<noteq> 0 \<and>
      fst (Next (((snd \<circ> Next) ^^ k) it)) = iterate it ! k)"
proof (induction n \<equiv> "length (iterate it)" arbitrary: it)
  case 0
  then have "it = 0"
    by (auto simp add: iterate_bits filter_bits_empty simp del: filter_empty_conv)
  with 0 show ?case
    by simp
next
  case (Suc n)
  then have nz: "it \<noteq> 0"
    by (auto simp add: iterate_zero)
  let ?it' = "it AND (it - 1)"
  have step: "iterate it = of_nat (lowest it) # iterate ?it'"
    using nz by (rule iterate_nonzero)
  with Suc.hyps(2) have n: "n = length (iterate ?it')"
    by simp
  note IH = Suc.hyps(1) [OF n]
  have shift: "((snd \<circ> Next) ^^ Suc k) it = ((snd \<circ> Next) ^^ k) ?it'" for k
    using nz by (simp add: funpow_swap1 Next_nonzero)
  have len: "length (iterate it) = Suc (length (iterate ?it'))"
    by (simp add: step)
  have "((snd \<circ> Next) ^^ length (iterate it)) it = 0"
    unfolding len shift using IH by simp
  moreover have "((snd \<circ> Next) ^^ k) it \<noteq> 0 \<and>
      fst (Next (((snd \<circ> Next) ^^ k) it)) = iterate it ! k" if "k < length (iterate it)" for k
  proof (cases k)
    case 0
    with nz show ?thesis
      by (simp add: step Next_nonzero)
  next
    case (Suc j)
    with that have "j < length (iterate ?it')"
      by (simp add: step)
    with IH show ?thesis
      unfolding Suc shift by (simp add: step)
  qed
  ultimately show ?case
    by blast
qed

lemma sint_iterate: "map sint (iterate it) = map int (filter (bit it) [0..<64])"
  by (simp add: iterate_bits sint_small)

lemma set_iterate: "set (iterate it) = {n. 0 \<le>s n \<and> n \<le>s 63 \<and> Test it n}"
proof (intro set_eqI iffI)
  fix n
  assume "n \<in> set (iterate it)"
  then obtain k where "k < 64" "bit it k" "n = of_nat k"
    by (auto simp add: iterate_bits)
  then show "n \<in> {n. 0 \<le>s n \<and> n \<le>s 63 \<and> Test it n}"
    by (simp add: index_of_nat Test_bit)
next
  fix n
  assume "n \<in> {n. 0 \<le>s n \<and> n \<le>s 63 \<and> Test it n}"
  then have n: "0 \<le>s n" "n \<le>s 63" "Test it n"
    by simp_all
  then obtain k where k: "k < 64" "n = of_nat k"
    by (blast elim: index_cases)
  with n(3) have "bit it k"
    by (simp add: Test_bit index_of_nat)
  with k show "n \<in> set (iterate it)"
    by (simp add: iterate_bits)
qed

lemma bit_Of_loop:
  "bit (Of_loop ps b) k \<longleftrightarrow> bit b k \<or> (\<exists>m\<in>set ps. 0 \<le>s m \<and> m \<le>s 63 \<and> unat m = k)"
proof (induction ps arbitrary: b)
  case Nil
  then show ?case by simp
next
  case (Cons n ps)
  have lt: "n <s 64 \<longleftrightarrow> n \<le>s 63"
    by (auto simp add: word_sless_alt word_sle_eq)
  show ?case
    by (auto simp add: Cons.IH lt bit_Set dest: unat_of_index)
qed

lemma bit_Of:
  "bit (Of ps) k \<longleftrightarrow> (\<exists>m\<in>set ps. 0 \<le>s m \<and> m \<le>s 63 \<and> unat m = k)"
  by (simp add: Of_def bit_Of_loop)

section \<open>Least and Most\<close>

text \<open>
  C4: for every field \<open>b\<close>, \<open>Least()\<close> is the position of the lowest set bit, computed as
  the count of trailing zero bits, and \<open>Most()\<close> the position of the highest set bit,
  computed as 63 minus the count of leading zero bits; each returns \<open>-1\<close> if and only if
  the field is empty. The lowest (highest) set bit: the position is set, and no set position
  lies below (above) it.
\<close>

theorem Least_Most_positions:
  "(Least_Bits b = - 1 \<longleftrightarrow> Empty b) \<and> (Most b = - 1 \<longleftrightarrow> Empty b) \<and>
   (\<not> Empty b \<longrightarrow>
      Least_Bits b = TrailingZeros64 b \<and> Most b = 63 - LeadingZeros64 b \<and>
      0 \<le>s Least_Bits b \<and> Most b \<le>s 63 \<and> Test b (Least_Bits b) \<and> Test b (Most b) \<and>
      (\<forall>m. 0 \<le>s m \<and> m \<le>s 63 \<and> Test b m \<longrightarrow> Least_Bits b \<le>s m \<and> m \<le>s Most b))"
proof (cases "b = 0")
  case True
  then show ?thesis
    by (simp add: Least_Bits_def Most_def Empty_def)
next
  case False
  note lp = lowest_props [OF False] and hp = highest_props [OF False]
  have L: "Least_Bits b = of_nat (lowest b)" and M: "Most b = of_nat (highest b)"
    using False by (rule Least_Bits_nonzero, rule Most_nonzero)
  have "Least_Bits b \<noteq> - 1" "Most b \<noteq> - 1"
    using lp(1) hp(1) by (simp_all add: L M of_nat_index_not_minus_one)
  moreover have "Least_Bits b = TrailingZeros64 b" "Most b = 63 - LeadingZeros64 b"
    using False by (simp_all add: Least_Bits_def Most_def)
  moreover have "0 \<le>s Least_Bits b" "Most b \<le>s 63"
    using lp(1) hp(1) by (simp_all add: L M index_of_nat)
  moreover have "Test b (Least_Bits b)" "Test b (Most b)"
    using lp(1,2) hp(1,2) by (simp_all add: L M Test_bit index_of_nat)
  moreover have "Least_Bits b \<le>s m \<and> m \<le>s Most b"
    if "0 \<le>s m \<and> m \<le>s 63 \<and> Test b m" for m
  proof -
    from that obtain k where k: "k < 64" "m = of_nat k"
      by (blast elim: index_cases)
    with that have "bit b k"
      by (simp add: Test_bit index_of_nat)
    with lp(3) [of k] hp(3) [of k] have "lowest b \<le> k" "k \<le> highest b"
      by (auto simp add: not_less [symmetric])
    with k lp(1) hp(1) show ?thesis
      by (simp add: L M of_nat_index_le)
  qed
  ultimately show ?thesis
    using False unfolding Empty_def by blast
qed

theorem Least_Most_positions_witness:
  "\<not> Empty 40 \<and> Empty 0 \<and> Least_Bits 40 = 3 \<and> Most 40 = 5 \<and>
   Least_Bits 40 = TrailingZeros64 40 \<and> Most 40 = 63 - LeadingZeros64 40 \<and>
   Test 40 (Least_Bits 40) \<and> Test 40 (Most 40) \<and>
   Least_Bits 40 \<le>s 5 \<and> 3 \<le>s Most 40 \<and> Least_Bits 0 = - 1 \<and> Most 0 = - 1"
proof -
  have nz: "\<not> Empty 40" "Empty 0"
    by (simp_all add: Empty_def)
  have ev: "Least_Bits 40 = 3" "Most 40 = 5"
    by code_simp+
  have t: "0 \<le>s (5::goint) \<and> (5::goint) \<le>s 63 \<and> Test 40 5" "0 \<le>s (3::goint) \<and> (3::goint) \<le>s 63 \<and> Test 40 3"
    by code_simp+
  from Least_Most_positions [of 40] Least_Most_positions [of 0] nz ev t show ?thesis
    by blast
qed

section \<open>Next\<close>

text \<open>
  C3: when the remaining word is not zero, \<open>Next()\<close> returns the lowest remaining set
  position and removes it from the remaining set (the new word is the old one with that
  position unset); when the remaining word is zero it returns \<open>-1\<close> and leaves the word
  zero, so every later call returns \<open>-1\<close> as well.
\<close>

theorem Next_lowest_or_exhausted:
  "(it \<noteq> 0 \<longrightarrow>
      (case Next it of (x, it') \<Rightarrow>
         0 \<le>s x \<and> x \<le>s 63 \<and> Test it x \<and> (\<forall>m. 0 \<le>s m \<and> m <s x \<longrightarrow> \<not> Test it m) \<and>
         it' = Unset it x \<and> (\<forall>m. Test it' m \<longleftrightarrow> Test it m \<and> m \<noteq> x))) \<and>
   (it = 0 \<longrightarrow> (\<forall>k. Next (((snd \<circ> Next) ^^ k) it) = (- 1, 0)))"
proof (cases "it = 0")
  case True
  then show ?thesis
    by (simp add: funpow_Next_zero Next_zero)
next
  case False
  note lp = lowest_props [OF False]
  let ?x = "of_nat (lowest it) :: goint"
  have N: "Next it = (?x, Unset it ?x)"
    using False by (simp add: Next_nonzero clear_lowest_Unset)
  have "0 \<le>s ?x" "?x \<le>s 63" "Test it ?x"
    using lp(1,2) by (simp_all add: index_of_nat Test_bit)
  moreover have "\<not> Test it m" if "0 \<le>s m \<and> m <s ?x" for m
  proof -
    from that lp(1) have "sint m < 64" "0 \<le> sint m"
      by (simp_all add: word_sless_alt word_sle_eq sint_small)
    then have "0 \<le>s m" "m \<le>s 63"
      by (simp_all add: word_sle_eq)
    then obtain k where k: "k < 64" "m = of_nat k"
      by (blast elim: index_cases)
    with that lp(1) have "k < lowest it"
      by (simp add: of_nat_index_less)
    with lp(3) k show ?thesis
      by (simp add: Test_bit index_of_nat)
  qed
  moreover have "Test (Unset it ?x) m \<longleftrightarrow> Test it m \<and> m \<noteq> ?x" for m
    by (auto simp add: Test_bit bit_Unset unat_index_inject)
  ultimately show ?thesis
    using False N by simp
qed

theorem Next_lowest_or_exhausted_witness:
  "(40::Iter) \<noteq> 0 \<and> Next 40 = (3, 32) \<and> Test 40 3 \<and> \<not> Test 40 2 \<and> 32 = Unset 40 3 \<and>
   \<not> Test 32 3 \<and> Next (((snd \<circ> Next) ^^ 2) 0) = (- 1, 0)"
proof -
  have nz: "(40::Iter) \<noteq> 0"
    by simp
  have N: "Next 40 = (3, 32)"
    by code_simp
  have m: "0 \<le>s (2::goint) \<and> (2::goint) <s 3"
    by code_simp
  from Next_lowest_or_exhausted [of 40] nz m have "Test 40 3 \<and> \<not> Test 40 2 \<and> 32 = Unset 40 3 \<and> \<not> Test 32 3"
    unfolding N by simp
  moreover from Next_lowest_or_exhausted [of 0] have "Next (((snd \<circ> Next) ^^ 2) 0) = (- 1, 0)"
    by blast
  ultimately show ?thesis
    using nz N by blast
qed

section \<open>Singular and Count\<close>

text \<open>
  C7: for every field \<open>b\<close>, \<open>b.Singular()\<close> is true if and only if \<open>b.Count() == 1\<close>, and
  \<open>Singular\<close> is computed as: the word is not zero and \<open>word & (word - 1)\<close> is zero.
\<close>

theorem Singular_iff_Count:
  "(Singular b \<longleftrightarrow> Count b = 1) \<and> (Singular b \<longleftrightarrow> b \<noteq> 0 \<and> b AND (b - 1) = 0)"
proof -
  have "Count b = 1 \<longleftrightarrow> unat (Count b) = 1"
    by (metis unat_1 unat_index_inject)
  also have "\<dots> \<longleftrightarrow> b \<noteq> 0 \<and> b AND (b - 1) = 0"
  proof (cases "b = 0")
    case True
    then show ?thesis
      by (simp add: unat_Count)
  next
    case False
    then show ?thesis
      by (simp add: unat_Count filter_bits_step filter_bits_empty del: filter_empty_conv)
  qed
  finally show ?thesis
    by (simp add: Singular_def)
qed

theorem Singular_iff_Count_witness:
  "Singular 32 \<and> Count 32 = 1 \<and> \<not> Singular 40 \<and> Count 40 = 2"
proof -
  have c: "Count 32 = 1" "Count 40 = 2" "(2::goint) \<noteq> 1"
    by code_simp+
  with Singular_iff_Count [of 32] Singular_iff_Count [of 40] show ?thesis
    by simp
qed

section \<open>Of\<close>

text \<open>
  C8: for every list of positions, \<open>Of(positions...)\<close> returns the field in which exactly
  the listed positions lying in [0, 63] are set; positions outside [0, 63] are ignored, and
  listing a position twice (or in another order) changes nothing.
\<close>

theorem Of_exact:
  "(\<forall>m. Test (Of ps) m \<longleftrightarrow> 0 \<le>s m \<and> m \<le>s 63 \<and> m \<in> set ps) \<and>
   Of (filter (\<lambda>n. 0 \<le>s n \<and> n \<le>s 63) ps) = Of ps \<and>
   Of (remdups ps) = Of ps \<and>
   (set ps = set qs \<longrightarrow> Of ps = Of qs)"
proof -
  have "Test (Of ps) m \<longleftrightarrow> 0 \<le>s m \<and> m \<le>s 63 \<and> m \<in> set ps" for m
    by (auto simp add: Test_bit bit_Of unat_index_inject)
  moreover have "Of (filter (\<lambda>n. 0 \<le>s n \<and> n \<le>s 63) ps) = Of ps"
    by (rule bit_word_eqI) (auto simp add: bit_Of)
  moreover have "Of (remdups ps) = Of ps"
    by (rule bit_word_eqI) (simp add: bit_Of)
  moreover have "Of ps = Of qs" if "set ps = set qs"
    by (rule bit_word_eqI) (simp add: bit_Of that)
  ultimately show ?thesis
    by blast
qed

theorem Of_exact_witness:
  "Test (Of [2, 64, - 1, 2]) 2 \<and> \<not> Test (Of [2, 64, - 1, 2]) 64 \<and> \<not> Test (Of [2, 64, - 1, 2]) (- 1) \<and>
   Of [2, 64, - 1, 2] = Of [2] \<and> Of [2] = 4 \<and> Of [0, 5] = Of [5, 0, 5]"
proof -
  have a: "0 \<le>s (2::goint)" "(2::goint) \<le>s 63" "\<not> (64::goint) \<le>s 63" "\<not> 0 \<le>s (- 1::goint)"
    by code_simp+
  have f: "filter (\<lambda>n. 0 \<le>s n \<and> n \<le>s 63) [2, 64, - 1, 2 :: goint] = [2, 2]" "remdups [2, 2 :: goint] = [2]"
    by code_simp+
  have s: "set [0, 5 :: goint] = set [5, 0, 5]"
    by auto
  have e: "Of [2] = 4"
    by code_simp
  from Of_exact [of "[2, 64, - 1, 2]" "[]"] a
  have "Test (Of [2, 64, - 1, 2]) 2 \<and> \<not> Test (Of [2, 64, - 1, 2]) 64 \<and> \<not> Test (Of [2, 64, - 1, 2]) (- 1)"
    by simp
  moreover from Of_exact [of "[2, 64, - 1, 2]" "[]"] Of_exact [of "[2, 2]" "[]"] f
  have "Of [2, 64, - 1, 2] = Of [2]"
    by simp
  moreover from Of_exact [of "[0, 5]" "[5, 0, 5]"] s have "Of [0, 5] = Of [5, 0, 5]"
    by blast
  ultimately show ?thesis
    using e by blast
qed

section \<open>Iteration ends\<close>

text \<open>
  C10: for an iterator whose remaining word is not zero, a call to \<open>Next()\<close> strictly
  lowers the remaining word (it clears the lowest set bit); for every field \<open>b\<close> the
  iterator \<open>b.Iter()\<close> is at the zero word after exactly \<open>b.Count()\<close> calls of \<open>Next()\<close>, and
  not before.
\<close>

theorem iteration_terminates:
  "(it \<noteq> 0 \<longrightarrow> snd (Next it) < it \<and> snd (Next it) = Unset it (fst (Next it))) \<and>
   ((snd \<circ> Next) ^^ unat (Count b)) (Iter b) = 0 \<and>
   (\<forall>k<unat (Count b). ((snd \<circ> Next) ^^ k) (Iter b) \<noteq> 0)"
proof -
  have "snd (Next it) < it \<and> snd (Next it) = Unset it (fst (Next it))" if "it \<noteq> 0"
    using that clear_lowest_less [OF that] clear_lowest_Unset [OF that]
    by (simp add: Next_nonzero)
  moreover have "((snd \<circ> Next) ^^ unat (Count b)) (Iter b) = 0"
    using funpow_Next_iterate [of b] by (simp add: unat_Count_iterate Iter_def)
  moreover have "\<forall>k<unat (Count b). ((snd \<circ> Next) ^^ k) (Iter b) \<noteq> 0"
    using funpow_Next_iterate [of b] by (simp add: unat_Count_iterate Iter_def)
  ultimately show ?thesis
    by blast
qed

theorem iteration_terminates_witness:
  "(40::Iter) \<noteq> 0 \<and> snd (Next 40) < 40 \<and> snd (Next 40) = Unset 40 (fst (Next 40)) \<and>
   unat (Count 40) = 2 \<and> ((snd \<circ> Next) ^^ 2) (Iter 40) = 0 \<and>
   ((snd \<circ> Next) ^^ 1) (Iter 40) \<noteq> 0 \<and> ((snd \<circ> Next) ^^ 0) (Iter 40) \<noteq> 0"
proof -
  have nz: "(40::Iter) \<noteq> 0"
    by simp
  have c: "unat (Count 40) = 2"
    by code_simp
  have k: "(0::nat) < 2" "(1::nat) < 2"
    by simp_all
  from iteration_terminates [of 40 40] nz
  have "snd (Next 40) < 40 \<and> snd (Next 40) = Unset 40 (fst (Next 40))"
    by blast
  moreover from iteration_terminates [of 40 40] have "((snd \<circ> Next) ^^ 2) (Iter 40) = 0"
    unfolding c by blast
  moreover from iteration_terminates [of 40 40] k
  have "((snd \<circ> Next) ^^ 1) (Iter 40) \<noteq> 0 \<and> ((snd \<circ> Next) ^^ 0) (Iter 40) \<noteq> 0"
    unfolding c by blast
  ultimately show ?thesis
    using nz c by blast
qed

section \<open>Iteration yields the set positions in ascending order\<close>

text \<open>
  C2: for every field \<open>b\<close>, calling \<open>Next()\<close> on \<open>b.Iter()\<close> until it returns \<open>-1\<close> yields
  a strictly ascending sequence of positions without duplicates, made of exactly the
  positions \<open>n\<close> in [0, 63] with \<open>b.Test(n)\<close>, and as long as \<open>b.Count()\<close>. The list
  \<open>iterate\<close> is that sequence: its \<open>k\<close>-th element is what the \<open>k\<close>-th call returns, and the
  call after the last one returns \<open>-1\<close>.
\<close>

theorem iterate_ascending_exact:
  "sorted_wrt (<) (map sint (iterate (Iter b))) \<and>
   distinct (iterate (Iter b)) \<and>
   set (iterate (Iter b)) = {n. 0 \<le>s n \<and> n \<le>s 63 \<and> Test b n} \<and>
   int (length (iterate (Iter b))) = sint (Count b) \<and>
   (\<forall>k<length (iterate (Iter b)).
      fst (Next (((snd \<circ> Next) ^^ k) (Iter b))) = iterate (Iter b) ! k) \<and>
   fst (Next (((snd \<circ> Next) ^^ length (iterate (Iter b))) (Iter b))) = - 1"
proof -
  have asc: "sorted_wrt (<) (map sint (iterate b))"
    unfolding sint_iterate by (simp add: sorted_wrt_map sorted_wrt_filter)
  have "inj_on (of_nat :: nat \<Rightarrow> goint) (set (filter (bit b) [0..<64]))"
  proof (rule inj_onI)
    fix x y
    assume x: "x \<in> set (filter (bit b) [0..<64])" and y: "y \<in> set (filter (bit b) [0..<64])"
      and eq: "(of_nat x :: goint) = of_nat y"
    from x y have "x < 64" "y < 64"
      by simp_all
    then have "unat (of_nat x :: goint) = x" "unat (of_nat y :: goint) = y"
      by (simp_all only: index_of_nat(3))
    with eq show "x = y"
      by metis
  qed
  then have "distinct (iterate b)"
    by (simp add: iterate_bits distinct_map)
  moreover have "int (length (iterate b)) = sint (Count b)"
    by (simp add: Count_def OnesCount64_def iterate_bits sint_small length_filter_bits_le)
  moreover have "fst (Next (((snd \<circ> Next) ^^ length (iterate b)) b)) = - 1"
    using funpow_Next_iterate [of b] by (simp add: Next_zero)
  ultimately show ?thesis
    using asc set_iterate [of b] funpow_Next_iterate [of b] by (simp add: Iter_def)
qed

theorem iterate_ascending_exact_witness:
  "iterate (Iter 40) = [3, 5] \<and> sorted_wrt (<) (map sint (iterate (Iter 40))) \<and>
   distinct (iterate (Iter 40)) \<and>
   set (iterate (Iter 40)) = {n. 0 \<le>s n \<and> n \<le>s 63 \<and> Test 40 n} \<and>
   int (length (iterate (Iter 40))) = sint (Count 40) \<and> Count 40 = 2 \<and>
   fst (Next (((snd \<circ> Next) ^^ 0) (Iter 40))) = 3 \<and>
   fst (Next (((snd \<circ> Next) ^^ 1) (Iter 40))) = 5 \<and>
   fst (Next (((snd \<circ> Next) ^^ 2) (Iter 40))) = - 1"
proof -
  have e: "iterate (Iter 40) = [3, 5]" "Count 40 = 2"
    by code_simp+
  then have l: "length (iterate (Iter 40)) = 2"
    by simp
  from iterate_ascending_exact [of 40]
  have "fst (Next (((snd \<circ> Next) ^^ 0) (Iter 40))) = 3 \<and>
    fst (Next (((snd \<circ> Next) ^^ 1) (Iter 40))) = 5 \<and>
    fst (Next (((snd \<circ> Next) ^^ 2) (Iter 40))) = - 1"
    unfolding l by (simp add: e numeral_2_eq_2 less_Suc_eq)
  with iterate_ascending_exact [of 40] e show ?thesis
    by blast
qed

section \<open>Setting, clearing and testing one bit\<close>

text \<open>
  C6: for every field \<open>b\<close> and every \<open>n\<close> in [0, 63], \<open>b.Set(n).Test(n)\<close> is true and
  \<open>b.Unset(n).Test(n)\<close> is false; for every \<open>m\<close> in [0, 63] other than \<open>n\<close>,
  \<open>b.Set(n).Test(m)\<close> and \<open>b.Unset(n).Test(m)\<close> equal \<open>b.Test(m)\<close>.
\<close>

theorem Set_Unset_Test:
  "0 \<le>s n \<Longrightarrow> n \<le>s 63 \<Longrightarrow>
     Test (Set b n) n \<and> \<not> Test (Unset b n) n \<and>
     (\<forall>m. 0 \<le>s m \<and> m \<le>s 63 \<and> m \<noteq> n \<longrightarrow>
        Test (Set b n) m = Test b m \<and> Test (Unset b n) m = Test b m)"
  by (auto simp add: Test_bit bit_Set bit_Unset unat_of_index unat_index_inject)

theorem Set_Unset_Test_witness:
  "(0::goint) \<le>s 5 \<and> (5::goint) \<le>s 63 \<and>
   Test (Set 9 5) 5 \<and> \<not> Test (Unset 41 5) 5 \<and>
   Test (Set 9 5) 3 = Test 9 3 \<and> Test (Unset 41 5) 3 = Test 41 3"
proof -
  have h: "(0::goint) \<le>s 5" "(5::goint) \<le>s 63" "(0::goint) \<le>s 3" "(3::goint) \<le>s 63" "(3::goint) \<noteq> 5"
    by (simp_all add: word_sle_eq)
  from Set_Unset_Test [OF h(1,2), of 9] Set_Unset_Test [OF h(1,2), of 41] h
  show ?thesis
    by blast
qed

text \<open>
  C9: for every field \<open>b\<close> and every \<^verbatim>\<open>int\<close> \<open>n\<close> outside [0, 63], \<open>b.Set(n)\<close> and
  \<open>b.Unset(n)\<close> return \<open>b\<close> unchanged and \<open>b.Test(n)\<close> is false. (The shift count
  \<^verbatim>\<open>uint64(n)\<close> is then at least 64, so the mask \<^verbatim>\<open>1 << uint64(n)\<close> is 0.)
\<close>

theorem out_of_range_noop:
  "n <s 0 \<or> 63 <s n \<Longrightarrow> Set b n = b \<and> Unset b n = b \<and> \<not> Test b n"
proof -
  assume "n <s 0 \<or> 63 <s n"
  then have "64 \<le> unat n"
    by (rule unat_outside)
  then have p: "push_bit (unat n) (1::Bits) = 0"
    by simp
  show ?thesis
    by (simp only: Set_def Unset_def Test_def p) simp
qed

theorem out_of_range_noop_witness:
  "((64::goint) <s 0 \<or> (63::goint) <s 64) \<and> Set 7 64 = 7 \<and> Unset 7 64 = 7 \<and> \<not> Test 7 64
   \<and> Set 7 (- 1) = 7 \<and> Unset 7 (- 1) = 7 \<and> \<not> Test 7 (- 1)"
proof -
  have h: "(64::goint) <s 0 \<or> (63::goint) <s 64" "(- 1::goint) <s 0 \<or> (63::goint) <s - 1"
    by simp_all
  from out_of_range_noop [OF h(1), of 7] out_of_range_noop [OF h(2), of 7] h(1)
  show ?thesis
    by blast
qed

section \<open>Range\<close>

lemma Set_outside:
  "n <s 0 \<or> 63 <s n \<Longrightarrow> Set b n = b"
proof -
  assume "n <s 0 \<or> 63 <s n"
  then have "64 \<le> unat n"
    by (rule unat_outside)
  then have p: "push_bit (unat n) (1::Bits) = 0"
    by simp
  show ?thesis
    by (simp only: Set_def p) simp
qed

lemma Range_loop_step:
  "n \<le>s high \<Longrightarrow> n + step = n' \<Longrightarrow> Set b n = b' \<Longrightarrow>
     Range_loop n high step b = Range_loop n' high step b'"
  by (subst Range_loop.simps) simp

lemma Range_loop_stop:
  "\<not> n \<le>s high \<Longrightarrow> Range_loop n high step b = Some b"
  by (subst Range_loop.simps) simp

lemma Range_loop_exact:
  assumes "0 \<le> sint n" and "sint n \<le> sint high \<longrightarrow> sint n + sint step < 2 ^ 63"
    and "sint high \<le> 63" and "1 \<le> sint step"
  shows "\<exists>r. Range_loop n high step b = Some r \<and>
    (\<forall>k. bit r k \<longleftrightarrow> bit b k \<or> (\<exists>j. int k = sint n + int j * sint step \<and> int k \<le> sint high))"
  using assms(1,2)
proof (induction n arbitrary: b rule: measure_induct_rule [where f = "\<lambda>n. nat (sint high + 1 - sint n)"])
  case (less n)
  show ?case
  proof (cases "n \<le>s high")
    case False
    then have gt: "sint high < sint n"
      by (simp add: word_sle_eq)
    have "Range_loop n high step b = Some b"
      using False by (subst Range_loop.simps) simp
    moreover have "\<not> (int k = sint n + int j * sint step \<and> int k \<le> sint high)" for k j
    proof -
      from assms(4) have "0 \<le> int j * sint step"
        by simp
      with gt show ?thesis
        by linarith
    qed
    ultimately show ?thesis
      by blast
  next
    case True
    then have le: "sint n \<le> sint high"
      by (simp add: word_sle_eq)
    have add: "sint (n + step) = sint n + sint step"
      using less.prems le assms(4) by (intro sint_add_goint) linarith+
    have un: "int (unat n) = sint n"
      using less.prems(1) by (rule unat_sint_index)
    have again: "sint (n + step) \<le> sint high \<longrightarrow> sint (n + step) + sint step < 2 ^ 63"
    proof
      assume "sint (n + step) \<le> sint high"
      with add assms(3) less.prems(1) have "sint (n + step) + sint step \<le> 126"
        by linarith
      then show "sint (n + step) + sint step < 2 ^ 63"
        by simp
    qed
    from add le assms(4) less.prems(1)
    have "nat (sint high + 1 - sint (n + step)) < nat (sint high + 1 - sint n)"
      and "0 \<le> sint (n + step)"
      by linarith+
    from less.IH [OF this again, of "Set b n"] obtain r where
      r: "Range_loop (n + step) high step (Set b n) = Some r"
        "\<And>k. bit r k \<longleftrightarrow> bit (Set b n) k \<or>
           (\<exists>j. int k = sint (n + step) + int j * sint step \<and> int k \<le> sint high)"
      by blast
    have "Range_loop n high step b = Some r"
      using True r(1) by (subst Range_loop.simps) simp
    moreover have "bit r k \<longleftrightarrow> bit b k \<or> (\<exists>j. int k = sint n + int j * sint step \<and> int k \<le> sint high)" for k
    proof -
      have "k = unat n \<longleftrightarrow> int k = sint n"
        unfolding un [symmetric] by (simp only: of_nat_eq_iff)
      moreover have "int k = sint n \<Longrightarrow> k < 64 \<and> int k \<le> sint high"
        using le assms(3) by linarith
      ultimately have here:
        "k = unat n \<and> k < 64 \<longleftrightarrow> int k = sint n + int 0 * sint step \<and> int k \<le> sint high"
        by auto
      have later: "(\<exists>j. int k = sint (n + step) + int j * sint step \<and> int k \<le> sint high) \<longleftrightarrow>
          (\<exists>j. int k = sint n + int (Suc j) * sint step \<and> int k \<le> sint high)"
        by (simp add: add algebra_simps)
      have split: "(\<exists>j. int k = sint n + int j * sint step \<and> int k \<le> sint high) \<longleftrightarrow>
          (int k = sint n + int 0 * sint step \<and> int k \<le> sint high) \<or>
          (\<exists>j. int k = sint n + int (Suc j) * sint step \<and> int k \<le> sint high)"
        (is "(\<exists>j. ?P j) \<longleftrightarrow> ?P 0 \<or> (\<exists>j. ?P (Suc j))")
      proof
        assume "\<exists>j. ?P j"
        then obtain j where j: "?P j" ..
        then show "?P 0 \<or> (\<exists>j. ?P (Suc j))"
          by (cases j) blast+
      qed blast
      show ?thesis
        unfolding r(2) bit_Set here later split by blast
    qed
    ultimately show ?thesis
      by blast
  qed
qed

text \<open>
  C1, as amended: for all \<^verbatim>\<open>int\<close> values \<open>low\<close>, \<open>high\<close> and \<open>step\<close> with \<open>step \<ge> 1\<close>, such
  that \<open>max(low, 0) + step\<close> is below \<open>2 ^ 63\<close> when \<open>max(low, 0) \<le> min(high, 63)\<close> (the
  first \<^verbatim>\<open>n += step\<close> does not wrap around, and then no later one does),
  \<open>Range(low, high, step)\<close> returns, and its set bits are exactly the positions
  \<open>max(low, 0) + k * step\<close> (\<open>k = 0, 1, 2, ...\<close>) that do not exceed \<open>min(high, 63)\<close>: \<open>low\<close> is
  only raised to 0 and \<open>high\<close> only lowered to 63.
\<close>

theorem Range_positions:
  "1 \<le>s step \<Longrightarrow>
   (max 0 (sint low) \<le> min 63 (sint high) \<longrightarrow> max 0 (sint low) + sint step < 2 ^ 63) \<Longrightarrow>
     \<exists>b. Range_Bits low high step = Some b \<and>
       (\<forall>k. bit b k \<longleftrightarrow>
          (\<exists>j. int k = max 0 (sint low) + int j * sint step \<and> int k \<le> min 63 (sint high)))"
proof -
  assume step: "1 \<le>s step"
    and noov: "max 0 (sint low) \<le> min 63 (sint high) \<longrightarrow> max 0 (sint low) + sint step < 2 ^ 63"
  define low' :: goint where "low' = (if low <s 0 then 0 else low)"
  define high' :: goint where "high' = (if 63 <s high then 63 else high)"
  have l: "sint low' = max 0 (sint low)"
    by (simp add: low'_def word_sless_alt max_def)
  have h: "sint high' = min 63 (sint high)"
    by (simp add: high'_def word_sless_alt min_def)
  have "0 \<le> sint low'" "sint low' \<le> sint high' \<longrightarrow> sint low' + sint step < 2 ^ 63"
    "sint high' \<le> 63" "1 \<le> sint step"
    using step noov by (simp_all add: l h word_sle_eq)
  from Range_loop_exact [OF this, of 0] show ?thesis
    by (simp add: Range_Bits_def Let_def low'_def [symmetric] high'_def [symmetric] l h)
qed

theorem Range_positions_witness:
  "(1::goint) \<le>s 30 \<and> max 0 (sint (- 2 :: goint)) \<le> min 63 (sint (70::goint)) \<and>
   max 0 (sint (- 2 :: goint)) + sint (30::goint) < 2 ^ 63 \<and>
   Range_Bits (- 2) 70 30 = Some 1152921505680588801 \<and>
   (\<exists>b. Range_Bits (- 2) 70 30 = Some b \<and> bit b 0 \<and> bit b 30 \<and> bit b 60 \<and> \<not> bit b 1)"
proof -
  have h: "(1::goint) \<le>s 30"
    "max 0 (sint (- 2 :: goint)) \<le> min 63 (sint (70::goint)) \<longrightarrow>
       max 0 (sint (- 2 :: goint)) + sint (30::goint) < 2 ^ 63"
    by (simp_all add: word_sle_eq)
  have h': "max 0 (sint (- 2 :: goint)) \<le> min 63 (sint (70::goint))"
    "max 0 (sint (- 2 :: goint)) + sint (30::goint) < 2 ^ 63"
    by simp_all
  have v: "max 0 (sint (- 2 :: goint)) = 0" "min 63 (sint (70::goint)) = 63" "sint (30::goint) = 30"
    by simp_all
  from Range_positions [OF h] obtain b where
    b: "Range_Bits (- 2) 70 30 = Some b"
      "\<And>k. bit b k \<longleftrightarrow> (\<exists>j. int k = int j * 30 \<and> int k \<le> 63)"
    unfolding v by auto
  have "int 0 = int 0 * 30 \<and> int 0 \<le> 63" "int 30 = int 1 * 30 \<and> int 30 \<le> 63"
    "int 60 = int 2 * 30 \<and> int 60 \<le> 63"
    by simp_all
  then have "bit b 0" "bit b 30" "bit b 60"
    unfolding b(2) by blast+
  moreover have "\<not> bit b 1"
    unfolding b(2) by presburger
  moreover have "Range_Bits (- 2) 70 30 = Some 1152921505680588801"
  proof -
    have "Range_Bits (- 2) 70 30 = Range_loop 0 63 30 0"
      unfolding Range_Bits_def Let_def by (simp add: word_sless_alt)
    also have "\<dots> = Range_loop 30 63 30 1"
      by (rule Range_loop_step) code_simp+
    also have "\<dots> = Range_loop 60 63 30 1073741825"
      by (rule Range_loop_step) code_simp+
    also have "\<dots> = Range_loop 90 63 30 1152921505680588801"
      by (rule Range_loop_step) code_simp+
    also have "\<dots> = Some 1152921505680588801"
      by (rule Range_loop_stop) code_simp
    finally show ?thesis .
  qed
  ultimately show ?thesis
    using h(1) h' b(1) by blast
qed

text \<open>
  The claim as stated clamps \<open>low\<close> from above as well: for \<open>Range(64, 100, 1)\<close> it asks for
  position \<open>63 = clamp(64) + 0 * 1\<close>, which does not exceed \<open>clamp(100) = 63\<close>. The loop
  starts at 64, above \<open>high = 63\<close>, and sets nothing.
\<close>

theorem Range_clamp_counterexample:
  "(1::goint) \<le>s 1 \<and> Range_Bits 64 100 1 = Some 0 \<and> \<not> Test 0 63 \<and>
   int 63 = spec_clamp (sint (64::goint)) + int 0 * sint (1::goint) \<and>
   int 63 \<le> spec_clamp (sint (100::goint))"
proof -
  have "Range_Bits 64 100 1 = Range_loop 64 63 1 0"
    unfolding Range_Bits_def Let_def by (simp add: word_sless_alt)
  also have "\<dots> = Some 0"
    by (rule Range_loop_stop) code_simp
  finally show ?thesis
    by (simp add: spec_clamp_def Test_def)
qed

text \<open>
  Where \<^verbatim>\<open>n += step\<close> wraps around, the loop goes on from a negative \<open>n\<close> and can come
  back into [0, 63] below \<open>low\<close>: \<open>Range(3, 63, 2 ^ 63 - 1)\<close> sets position 1 as well as
  position 3.
\<close>

lemma Range_wraps_example: "Range_Bits 3 63 9223372036854775807 = Some 10"
proof -
  let ?s = "9223372036854775807 :: goint"
  have "Range_Bits 3 63 ?s = Range_loop 3 63 ?s 0"
    unfolding Range_Bits_def Let_def by (simp add: word_sless_alt)
  also have "\<dots> = Range_loop 9223372036854775810 63 ?s 8"
    by (rule Range_loop_step) code_simp+
  also have "\<dots> = Range_loop 1 63 ?s 8"
    by (rule Range_loop_step) (code_simp, code_simp, rule Set_outside, code_simp)
  also have "\<dots> = Range_loop 9223372036854775808 63 ?s 10"
    by (rule Range_loop_step) code_simp+
  also have "\<dots> = Range_loop 18446744073709551615 63 ?s 10"
    by (rule Range_loop_step) (code_simp, code_simp, rule Set_outside, code_simp)
  also have "\<dots> = Range_loop 9223372036854775806 63 ?s 10"
    by (rule Range_loop_step) (code_simp, code_simp, rule Set_outside, code_simp)
  also have "\<dots> = Some 10"
    by (rule Range_loop_stop) code_simp
  finally show ?thesis .
qed

section \<open>Decimal digits\<close>

lemma of_char_digit: "d < 10 \<Longrightarrow> (of_char (digit d) :: nat) = 48 + d"
  by (simp add: digit_def)

lemma is_digit_digit: "d < 10 \<Longrightarrow> is_digit (digit d)"
  by (simp add: is_digit_def of_char_digit)

lemma is_digit_not_space: "is_digit c \<Longrightarrow> c \<noteq> CHR '' ''"
  by (auto simp add: is_digit_def)

lemma decimal_nonempty: "decimal n \<noteq> []"
  by (subst decimal.simps) simp

lemma decimal_digits: "list_all is_digit (decimal n)"
proof (induction n rule: decimal.induct)
  case (1 n)
  show ?case
  proof (cases "n < 10")
    case True
    then show ?thesis
      by (subst decimal.simps) (simp add: is_digit_digit)
  next
    case False
    with 1 show ?thesis
      by (subst decimal.simps) (simp add: is_digit_digit)
  qed
qed

lemma decimal_value: "foldl (\<lambda>a c. 10 * a + (of_char c - 48)) 0 (decimal n) = n"
proof (induction n rule: decimal.induct)
  case (1 n)
  show ?case
  proof (cases "n < 10")
    case True
    then show ?thesis
      by (subst decimal.simps) (simp add: of_char_digit)
  next
    case False
    with 1 show ?thesis
      by (subst decimal.simps) (simp add: of_char_digit)
  qed
qed

lemma Itoa_index: "k < 64 \<Longrightarrow> Itoa (of_nat k) = decimal k"
  by (simp add: Itoa_def word_sless_alt sint_small)

lemma Atoi_decimal: "Atoi (decimal k) = Some (of_nat k)"
  by (simp add: Atoi_def decimal_nonempty decimal_digits decimal_value)

section \<open>Joining and splitting\<close>

lemma join_spaces_Cons:
  "join_spaces (s # ss) = s @ concat (map (\<lambda>t. CHR '' '' # t) ss)"
  by (induction ss arbitrary: s) simp_all

lemma split_on_no_sep: "c \<notin> set s \<Longrightarrow> split_on c s = [s]"
  by (induction s) auto

lemma split_on_append_sep:
  "c \<notin> set s \<Longrightarrow> split_on c (s @ c # r) = s # split_on c r"
  by (induction s) auto

lemma split_on_join_spaces:
  assumes "ss \<noteq> []" and "\<forall>s\<in>set ss. CHR '' '' \<notin> set s"
  shows "split_on CHR '' '' (join_spaces ss) = ss"
  using assms
proof (induction ss rule: join_spaces.induct)
  case 1
  then show ?case by simp
next
  case (2 s)
  then show ?case by (simp add: split_on_no_sep)
next
  case (3 s t ts)
  then show ?case by (simp add: split_on_append_sep)
qed

lemma hd_join_spaces:
  "ss \<noteq> [] \<Longrightarrow> hd ss \<noteq> [] \<Longrightarrow> hd (join_spaces ss) = hd (hd ss)"
  by (cases ss) (simp_all add: join_spaces_Cons)

lemma last_join_spaces:
  "ss \<noteq> [] \<Longrightarrow> last ss \<noteq> [] \<Longrightarrow> last (join_spaces ss) = last (last ss)"
proof (induction ss rule: join_spaces.induct)
  case 1
  then show ?case by simp
next
  case (2 s)
  then show ?case by simp
next
  case (3 s t ts)
  then have "join_spaces (t # ts) \<noteq> []"
    by (cases ts) (auto simp add: join_spaces_Cons)
  with 3 show ?case by simp
qed

section \<open>The output of String\<close>

lemma String_loop_zero: "String_loop 0 sb sep = sb"
  by (subst String_loop.simps) (simp add: Next_zero minus_one_negative)

lemma String_loop_nonzero:
  "it \<noteq> 0 \<Longrightarrow>
     String_loop it sb sep =
       String_loop (it AND (it - 1)) (sb @ sep @ Itoa (of_nat (lowest it))) '' ''"
  using lowest_props(1) [of it]
  by (subst String_loop.simps) (simp add: Next_nonzero index_of_nat)

lemma String_loop_space:
  "String_loop it sb '' '' = sb @ concat (map (\<lambda>x. CHR '' '' # Itoa x) (iterate it))"
proof (induction it arbitrary: sb rule: measure_induct_rule [where f = unat])
  case (less it)
  show ?case
  proof (cases "it = 0")
    case True
    then show ?thesis
      by (simp add: String_loop_zero iterate_zero)
  next
    case False
    from clear_lowest_less [OF False] have "unat (it AND (it - 1)) < unat it"
      by (simp add: word_less_nat_alt)
    from less.IH [OF this] show ?thesis
      by (simp add: String_loop_nonzero [OF False] iterate_nonzero [OF False])
  qed
qed

lemma String_join: "String b = join_spaces (map Itoa (iterate (Iter b)))"
proof (cases "b = 0")
  case True
  then show ?thesis
    by (simp add: String_def Iter_def String_loop_zero iterate_zero)
next
  case False
  then show ?thesis
    by (simp add: String_def Iter_def String_loop_nonzero String_loop_space iterate_nonzero
        join_spaces_Cons comp_def)
qed

lemma Itoa_iterate:
  assumes "x \<in> set (iterate it)"
  obtains k where "k < 64" and "x = of_nat k" and "Itoa x = decimal k"
proof -
  from assms obtain k where "k < 64" "x = of_nat k"
    by (auto simp add: iterate_bits)
  then show ?thesis
    by (auto intro: that simp add: Itoa_index)
qed

lemma tokens_digits:
  assumes "s \<in> set (map Itoa (iterate it))"
  shows "s \<noteq> [] \<and> list_all is_digit s"
proof -
  from assms obtain x where "x \<in> set (iterate it)" and "s = Itoa x"
    by auto
  then obtain k where "s = decimal k"
    by (auto elim: Itoa_iterate)
  then show ?thesis
    by (simp add: decimal_nonempty decimal_digits)
qed

lemma tokens_no_space:
  "s \<in> set (map Itoa (iterate it)) \<Longrightarrow> CHR '' '' \<notin> set s"
  using tokens_digits [of s it] is_digit_not_space by (auto simp add: list_all_iff)

lemma Atoi_Itoa_iterate: "map Atoi (map Itoa (iterate it)) = map Some (iterate it)"
  by (auto elim!: Itoa_iterate simp add: Atoi_decimal)

lemma iterate_empty: "iterate it = [] \<longleftrightarrow> it = 0"
  by (simp add: iterate_bits filter_bits_empty del: filter_empty_conv)

lemma fields_String: "fields (String b) = map Itoa (iterate (Iter b))"
proof (cases "b = 0")
  case True
  then show ?thesis
    by (simp add: String_join Iter_def iterate_zero fields_def)
next
  case False
  then have ne: "map Itoa (iterate b) \<noteq> []"
    by (simp add: iterate_empty)
  have "split_on CHR '' '' (String b) = map Itoa (iterate b)"
    unfolding String_join Iter_def
    using ne by (rule split_on_join_spaces) (use tokens_no_space [of _ b] in blast)
  moreover have "filter (\<lambda>t. t \<noteq> []) (map Itoa (iterate b)) = map Itoa (iterate b)"
    by (rule filter_True) (use tokens_digits [of _ b] in blast)
  ultimately show ?thesis
    by (simp add: fields_def Iter_def)
qed

text \<open>
  C5: for every field \<open>b\<close>, \<open>b.String()\<close> is the set positions of \<open>b\<close> in ascending order
  (the sequence of full iteration), each written as a decimal integer, with one space
  between neighbours and none at the start or the end; it is the empty string exactly when
  \<open>b\<close> is empty; and splitting it on spaces gives back the sequence of full iteration.
\<close>

theorem String_format:
  "String b = join_spaces (map Itoa (iterate (Iter b))) \<and>
   (\<forall>s\<in>set (map Itoa (iterate (Iter b))). s \<noteq> [] \<and> list_all is_digit s) \<and>
   (String b = [] \<longleftrightarrow> Empty b) \<and>
   (\<not> Empty b \<longrightarrow>
      hd (String b) \<noteq> CHR '' '' \<and> last (String b) \<noteq> CHR '' '' \<and>
      split_on CHR '' '' (String b) = map Itoa (iterate (Iter b))) \<and>
   map Atoi (fields (String b)) = map Some (iterate (Iter b))"
proof -
  let ?ts = "map Itoa (iterate b)"
  have join: "String b = join_spaces ?ts"
    by (simp add: String_join Iter_def)
  have dig: "\<forall>s\<in>set ?ts. s \<noteq> [] \<and> list_all is_digit s"
    using tokens_digits [of _ b] by blast
  have nosp: "\<forall>s\<in>set ?ts. CHR '' '' \<notin> set s"
    using tokens_no_space [of _ b] by blast
  have nonzero: "hd (String b) \<noteq> CHR '' '' \<and> last (String b) \<noteq> CHR '' '' \<and>
      split_on CHR '' '' (String b) = ?ts \<and> String b \<noteq> []" if "b \<noteq> 0"
  proof -
    from that have ne: "?ts \<noteq> []"
      by (simp add: iterate_empty)
    then have mem: "hd ?ts \<in> set ?ts" "last ?ts \<in> set ?ts"
      by (rule hd_in_set, rule last_in_set)
    with dig have tok: "hd ?ts \<noteq> []" "last ?ts \<noteq> []"
      by blast+
    from mem nosp have "CHR '' '' \<notin> set (hd ?ts)" "CHR '' '' \<notin> set (last ?ts)"
      by blast+
    with tok have "hd (hd ?ts) \<noteq> CHR '' ''" "last (last ?ts) \<noteq> CHR '' ''"
      by (metis hd_in_set, metis last_in_set)
    moreover have "split_on CHR '' '' (join_spaces ?ts) = ?ts"
      using ne nosp by (rule split_on_join_spaces)
    moreover have "join_spaces ?ts \<noteq> []"
      using ne tok(1) by (cases ?ts) (auto simp add: join_spaces_Cons)
    ultimately show ?thesis
      unfolding join using ne tok by (simp add: hd_join_spaces last_join_spaces)
  qed
  have "String b = [] \<longleftrightarrow> b = 0"
  proof
    assume "String b = []"
    with nonzero show "b = 0"
      by blast
  next
    assume "b = 0"
    then show "String b = []"
      by (simp add: String_join Iter_def iterate_zero)
  qed
  moreover have "map Atoi (fields (String b)) = map Some (iterate (Iter b))"
    by (simp add: fields_String Atoi_Itoa_iterate Iter_def del: map_map)
  ultimately show ?thesis
    using join dig nonzero by (simp add: Iter_def Empty_def)
qed

theorem String_format_witness:
  "String 40 = ''3 5'' \<and> String 40 = join_spaces (map Itoa (iterate (Iter 40))) \<and>
   iterate (Iter 40) = [3, 5] \<and> \<not> Empty 40 \<and> Empty 0 \<and>
   hd (String 40) \<noteq> CHR '' '' \<and> last (String 40) \<noteq> CHR '' '' \<and>
   split_on CHR '' '' (String 40) = map Itoa (iterate (Iter 40)) \<and>
   map Atoi (fields (String 40)) = map Some (iterate (Iter 40)) \<and>
   String 0 = []"
proof -
  have nz: "\<not> Empty 40" "Empty 0"
    by (simp_all add: Empty_def)
  have e: "String 40 = ''3 5''" "iterate (Iter 40) = [3, 5]"
    by code_simp+
  from String_format [of 0] nz(2) have "String 0 = []"
    by blast
  with String_format [of 40] nz e show ?thesis
    by blast
qed

end
